theory Spec2Isabelle
  imports Complex_Main "HOL-Library.Word"
begin

unbundle bit_operations_syntax

section \<open>Firmware: sampler and packetizer (firmware/main/main.ino)\<close>

text \<open>
  The sketch runs on an AVR board (it writes the registers ADMUX and ADCSRA), where
  \<open>int\<close> and \<open>unsigned int\<close> are 16 bits wide: \<open>uint16_t\<close> operands keep their width
  under the usual arithmetic conversions, and a value stored into a \<open>byte\<close> is truncated
  to its low 8 bits.
\<close>

type_synonym u16 = "16 word"
type_synonym byte = "8 word"

text \<open>
  The hardware as the sketch sees it. Every element of \<open>adc\<close> is one poll of ADCSRA:
  \<open>None\<close> when the flag ADIF is still clear, \<open>Some v\<close> when the conversion is complete
  and the data register ADC reads \<open>v\<close>. \<open>serial\<close> is everything written to the UART.
\<close>

record hw =
  adc :: "u16 option list"
  serial :: "byte list"

text \<open>
  \<open>while (!(ADCSRA & (1 << ADIF)));  ... = ADC;  ADCSRA |= (1 << ADIF);\<close>
  The busy wait ends at the first poll that finds the flag set; when no such poll
  comes, it never ends (\<open>None\<close>).
\<close>

fun wait_adc :: "u16 option list \<Rightarrow> (u16 \<times> u16 option list) option" where
  "wait_adc [] = None"
| "wait_adc (None # ps) = wait_adc ps"
| "wait_adc (Some v # ps) = Some (v, ps)"

text \<open>\<open>for (int i = 0; i < 4; i++) { wait; samples[i] = ADC; clear flag }\<close>\<close>

function acquire :: "nat \<Rightarrow> u16 list \<Rightarrow> u16 option list \<Rightarrow> (u16 list \<times> u16 option list) option" where
  "acquire i samples ps =
     (if i < 4 then
        (case wait_adc ps of
           None \<Rightarrow> None
         | Some (v, ps') \<Rightarrow> acquire (i + 1) (samples[i := v]) ps')
      else Some (samples, ps))"
  by pat_completeness auto
termination
  by (relation "measure (\<lambda>(i, samples, ps). 4 - i)") auto

declare acquire.simps [simp del]

text \<open>
  Lines 62 to 74 of \<open>loop\<close>: the five bytes computed from \<open>samples[4]\<close>. The compound
  assignment \<open>packedData[k] |= e\<close> widens the byte, ors it with the 16-bit value \<open>e\<close>
  and truncates the result to a byte again.
\<close>

definition packedData :: "u16 list \<Rightarrow> byte list" where
  "packedData samples =
     (let pd = [0, 0, 0, 0, 0];
          pd = pd[0 := ucast (samples ! 0 AND 0xFF)];
          pd = pd[1 := ucast (drop_bit 8 (samples ! 0) AND 0x03)];
          pd = pd[1 := ucast ((ucast (pd ! 1) :: u16) OR push_bit 2 (samples ! 1 AND 0x3F))];
          pd = pd[2 := ucast (drop_bit 6 (samples ! 1) AND 0x0F)];
          pd = pd[2 := ucast ((ucast (pd ! 2) :: u16) OR push_bit 4 (samples ! 2 AND 0x0F))];
          pd = pd[3 := ucast (drop_bit 4 (samples ! 2) AND 0x3F)];
          pd = pd[3 := ucast ((ucast (pd ! 3) :: u16) OR push_bit 6 (samples ! 3 AND 0x03))];
          pd = pd[4 := ucast (drop_bit 2 (samples ! 3) AND 0xFF)]
      in pd)"

text \<open>
  \<open>setup()\<close> only opens the UART and starts the ADC in free-running mode. One run of
  \<open>loop()\<close>: acquire four samples, pack them, \<open>Serial.write(packedData, 5)\<close>.
  The array \<open>samples\<close> starts with unspecified contents, every cell is overwritten.
\<close>

definition loop :: "hw \<Rightarrow> hw option" where
  "loop h =
     (case acquire 0 [0, 0, 0, 0] (adc h) of
        None \<Rightarrow> None
      | Some (samples, ps') \<Rightarrow>
          Some \<lparr>adc = ps', serial = serial h @ take 5 (packedData samples)\<rparr>)"

text \<open>The Arduino runtime calls \<open>loop()\<close> again and again; \<open>run n\<close> is its first \<open>n\<close> calls.\<close>

fun run :: "nat \<Rightarrow> hw \<Rightarrow> hw option" where
  "run 0 h = Some h"
| "run (Suc n) h = (case loop h of None \<Rightarrow> None | Some h' \<Rightarrow> run n h')"


section \<open>Wire protocol as the specification words it\<close>

text \<open>\<open>bits hi lo s\<close> is the bit field \<open>s[hi:lo]\<close>, bit 0 the least significant.\<close>

definition bits :: "nat \<Rightarrow> nat \<Rightarrow> nat \<Rightarrow> nat" where
  "bits hi lo s = take_bit (Suc hi - lo) (drop_bit lo s)"

text \<open>The byte layout of the wire protocol, written from its five lines over numbers.\<close>

definition layout :: "nat \<Rightarrow> nat \<Rightarrow> nat \<Rightarrow> nat \<Rightarrow> nat list" where
  "layout s0 s1 s2 s3 =
     [bits 7 0 s0,
      bits 9 8 s0 OR push_bit 2 (bits 5 0 s1),
      bits 9 6 s1 OR push_bit 4 (bits 3 0 s2),
      bits 9 4 s2 OR push_bit 6 (bits 1 0 s3),
      bits 9 2 s3]"

text \<open>
  Modelled from the spec: the decode step of the host's stream decoder, which is not
  part of the sources. Given five aligned bytes it rebuilds the four samples by
  inverting the layout field by field; any other number of bytes is not a packet.
\<close>

fun unpack :: "nat list \<Rightarrow> nat list option" where
  "unpack [b0, b1, b2, b3, b4] =
     Some [b0 OR push_bit 8 (take_bit 2 b1),
           drop_bit 2 b1 OR push_bit 6 (take_bit 4 b2),
           drop_bit 4 b2 OR push_bit 4 (take_bit 6 b3),
           drop_bit 6 b3 OR push_bit 2 b4]"
| "unpack _ = None"

text \<open>The samples a run of polls delivers, and their split into groups of four.\<close>

fun observed :: "u16 option list \<Rightarrow> u16 list" where
  "observed [] = []"
| "observed (None # ps) = observed ps"
| "observed (Some v # ps) = v # observed ps"

fun groups4 :: "'a list \<Rightarrow> 'a list list" where
  "groups4 (a # b # c # d # xs) = [a, b, c, d] # groups4 xs"
| "groups4 _ = []"

text \<open>A quadruple of 10-bit samples, and a string of five bytes.\<close>

definition in_range :: "u16 list \<Rightarrow> bool" where
  "in_range samples \<longleftrightarrow> length samples = 4 \<and> (\<forall>s \<in> set samples. unat s \<le> 1023)"

definition quadruples :: "u16 list set" where
  "quadruples = {samples. in_range samples}"

definition packets :: "byte list set" where
  "packets = {bs. length bs = 5}"

section \<open>Host: channel registry, math engine, measurement slots\<close>

text \<open>
  The host application is not part of the sources. TODO.md only lists its features:
  "3 math channels at most, cannot do math channel of a math channel of a math channel
  (count this math_level when creating a channel from another channel, forbid if
  math_level > 1. Channel 1 & 2 have math_level = 0.)", "4 measurements at most", and
  the rules of the division. Data and operations below follow the specification, which
  reads the bound as one on the level of the channel being created.
\<close>

text \<open>
  Modelled from the spec: the error kinds, the sample values of a derived buffer (a real
  number or one of the two infinities), and the records of the data model. A channel
  identifier is a number, a colour is the fixed colour of a physical channel or an entry
  of the palette of the math channels.
\<close>

datatype error = NestingTooDeep | ChannelLimitReached | SlotsFull | StreamDesync | BufferUnderrun

datatype xreal = Fin real | PosInf | NegInf

datatype chan_kind = Physical | Derived

datatype operator = Add | Subtract | Multiply | Divide

datatype color = CH1_color | CH2_color | Palette nat

datatype metric = PeakToPeak | RMS | Mean | Frequency

type_synonym chan_id = nat

record channel =
  ident :: chan_id
  kind :: chan_kind
  math_level :: nat
  operator :: "(operator \<times> bool) option"
  operands :: "(chan_id \<times> chan_id) option"
  color :: color
  buffer :: "xreal list"

record measurement =
  channel_id :: chan_id
  metric :: metric
  cached :: "xreal option"
  stale :: bool

record system =
  channels :: "channel list"
  next_id :: chan_id
  slots :: "measurement option list"

subsection \<open>Math engine\<close>

text \<open>
  Modelled from the spec: the point-wise division with its edge rules (also in TODO.md:
  zero by zero is 1, a positive value by zero is positive infinity, a negative value by
  zero is negative infinity).
\<close>

definition divide_op :: "real \<Rightarrow> real \<Rightarrow> xreal" where
  "divide_op n d =
     (if n = 0 \<and> d = 0 then Fin 1
      else if d = 0 \<and> n > 0 then PosInf
      else if d = 0 \<and> n < 0 then NegInf
      else Fin (n / d))"

text \<open>
  Modelled from the spec: the four operators on a matched pair \<open>(a, b)\<close>; the flag
  selects \<open>b - a\<close> and \<open>b / a\<close>.
\<close>

fun apply_operator :: "operator \<Rightarrow> bool \<Rightarrow> real \<Rightarrow> real \<Rightarrow> xreal" where
  "apply_operator Add swapped a b = Fin (a + b)"
| "apply_operator Subtract swapped a b = (if swapped then Fin (b - a) else Fin (a - b))"
| "apply_operator Multiply swapped a b = Fin (a * b)"
| "apply_operator Divide swapped a b = (if swapped then divide_op b a else divide_op a b)"

text \<open>
  Modelled from the spec: the recomputation of a derived buffer over the overlapping
  range of the two operand buffers (\<open>zip\<close> trims to the shorter one). The operands
  are physical channels, whose samples are finite.
\<close>

definition recompute :: "operator \<Rightarrow> bool \<Rightarrow> real list \<Rightarrow> real list \<Rightarrow> xreal list" where
  "recompute opr swapped as bs = map (\<lambda>(a, b). apply_operator opr swapped a b) (zip as bs)"

subsection \<open>Channel registry\<close>

text \<open>Modelled from the spec: the number of derived channels that exist.\<close>

definition derived_count :: "system \<Rightarrow> nat" where
  "derived_count s = length (filter (\<lambda>c. kind c = Derived) (channels s))"

text \<open>
  Modelled from the spec: the next unused colour of the fixed, ordered palette of the
  math channels.
\<close>

definition next_color :: "system \<Rightarrow> color" where
  "next_color s =
     (let used = set (map color (channels s)) in
      if Palette 0 \<notin> used then Palette 0
      else if Palette 1 \<notin> used then Palette 1
      else Palette 2)"

text \<open>Modelled from the spec: \<open>create_physical(id, color)\<close>, used at startup only.\<close>

definition create_physical :: "chan_id \<Rightarrow> color \<Rightarrow> system \<Rightarrow> system" where
  "create_physical i col s =
     s\<lparr>channels := channels s @
          [\<lparr>ident = i, kind = Physical, math_level = 0, operator = None, operands = None,
            color = col, buffer = []\<rparr>]\<rparr>"

text \<open>
  Modelled from the spec: the state at startup, the two physical channels registered and
  the four measurement slots empty.
\<close>

definition init_system :: system where
  "init_system =
     create_physical 2 CH2_color (create_physical 1 CH1_color
       \<lparr>channels = [], next_id = 3, slots = [None, None, None, None]\<rparr>)"

text \<open>
  Modelled from the spec: \<open>create_derived(operator, operand_order, operand_a, operand_b)\<close>.
  The operands are channel references. The checks come in the order of the
  specification: the nesting depth first, the number of derived channels second. Every
  operation returns its result together with the state it leaves.
\<close>

definition create_derived ::
  "operator \<Rightarrow> bool \<Rightarrow> channel \<Rightarrow> channel \<Rightarrow> system \<Rightarrow> (error + chan_id) \<times> system" where
  "create_derived opr swapped a b s =
     (let level = 1 + max (math_level a) (math_level b) in
      if level > 1 then (Inl NestingTooDeep, s)
      else if 3 \<le> derived_count s then (Inl ChannelLimitReached, s)
      else
        (Inr (next_id s),
         s\<lparr>channels := channels s @
              [\<lparr>ident = next_id s, kind = Derived, math_level = level,
                operator = Some (opr, swapped), operands = Some (ident a, ident b),
                color = next_color s, buffer = []\<rparr>],
           next_id := next_id s + 1\<rparr>))"

text \<open>
  Modelled from the spec: \<open>delete_derived(id)\<close> removes the derived channel and clears
  the measurement slots bound to it; a physical channel cannot be deleted.
\<close>

definition delete_derived :: "chan_id \<Rightarrow> system \<Rightarrow> system" where
  "delete_derived i s =
     (if \<exists>c \<in> set (channels s). ident c = i \<and> kind c = Derived then
        s\<lparr>channels := filter (\<lambda>c. ident c \<noteq> i) (channels s),
          slots := map (\<lambda>m. case m of
                               None \<Rightarrow> None
                             | Some x \<Rightarrow> if channel_id x = i then None else Some x) (slots s)\<rparr>
      else s)"

subsection \<open>Measurement slots\<close>

text \<open>Modelled from the spec: the lowest free index of the slots, if there is one.\<close>

fun lowest_free :: "measurement option list \<Rightarrow> nat option" where
  "lowest_free [] = None"
| "lowest_free (None # ms) = Some 0"
| "lowest_free (Some m # ms) = map_option Suc (lowest_free ms)"

text \<open>
  Modelled from the spec: \<open>add_measurement(channel_id, metric)\<close> claims the lowest free
  slot, \<open>remove_measurement(slot_index)\<close> clears a slot unconditionally.
\<close>

definition add_measurement :: "chan_id \<Rightarrow> metric \<Rightarrow> system \<Rightarrow> (error + nat) \<times> system" where
  "add_measurement c m s =
     (case lowest_free (slots s) of
        None \<Rightarrow> (Inl SlotsFull, s)
      | Some i \<Rightarrow>
          (Inr i,
           s\<lparr>slots := (slots s)[i := Some \<lparr>channel_id = c, metric = m, cached = None, stale = True\<rparr>]\<rparr>))"

definition remove_measurement :: "nat \<Rightarrow> system \<Rightarrow> system" where
  "remove_measurement i s = s\<lparr>slots := (slots s)[i := None]\<rparr>"

text \<open>
  Modelled from the spec: a measurement requested on a channel with too few samples
  fails with \<open>BufferUnderrun\<close>. The specification fixes neither the number of samples
  a metric needs nor how a metric is computed: both are parameters.
\<close>

definition measure_channel ::
  "(metric \<Rightarrow> nat) \<Rightarrow> (metric \<Rightarrow> xreal list \<Rightarrow> xreal) \<Rightarrow> channel \<Rightarrow> metric \<Rightarrow> system
     \<Rightarrow> (error + xreal) \<times> system" where
  "measure_channel needed compute c m s =
     (if length (buffer c) < needed m then (Inl BufferUnderrun, s)
      else (Inr (compute m (buffer c)), s))"

subsection \<open>Sequences of operations\<close>

text \<open>
  Modelled from the spec: the operations a user can invoke, one after the other from
  startup. After a rejected operation the sequence goes on from the state it returned.
\<close>

datatype op =
    CreateDerived operator bool channel channel
  | DeleteDerived chan_id
  | AddMeasurement chan_id metric
  | RemoveMeasurement nat

fun step :: "system \<Rightarrow> op \<Rightarrow> system" where
  "step s (CreateDerived opr swapped a b) = snd (create_derived opr swapped a b s)"
| "step s (DeleteDerived i) = delete_derived i s"
| "step s (AddMeasurement c m) = snd (add_measurement c m s)"
| "step s (RemoveMeasurement i) = remove_measurement i s"

definition exec :: "op list \<Rightarrow> system" where
  "exec ops = foldl step init_system ops"

definition occupied :: "measurement option list \<Rightarrow> bool" where
  "occupied ms \<longleftrightarrow> (\<forall>m \<in> set ms. m \<noteq> None)"

definition CH1 :: channel where
  "CH1 = \<lparr>ident = 1, kind = Physical, math_level = 0, operator = None, operands = None,
          color = CH1_color, buffer = []\<rparr>"

definition CH2 :: channel where
  "CH2 = \<lparr>ident = 2, kind = Physical, math_level = 0, operator = None, operands = None,
          color = CH2_color, buffer = []\<rparr>"


text \<open>Every live derived channel is a direct combination of physical channels.\<close>

definition levels_ok :: "system \<Rightarrow> bool" where
  "levels_ok s \<longleftrightarrow> (\<forall>c \<in> set (channels s). kind c = Derived \<longrightarrow> math_level c = 1)"

text \<open>
  Example values: the first math channel \<open>CH1 + CH2\<close> as the registry creates it, three
  creations that fill the registry, four additions that fill the slots.
\<close>

definition MATH1 :: channel where
  "MATH1 = \<lparr>ident = 3, kind = Derived, math_level = 1, operator = Some (Add, False),
            operands = Some (1, 2), color = Palette 0, buffer = []\<rparr>"

definition three_math :: "op list" where
  "three_math = [CreateDerived Add False CH1 CH2, CreateDerived Subtract True CH1 CH2,
                 CreateDerived Divide False CH2 CH1]"

definition four_added :: "op list" where
  "four_added = [AddMeasurement 1 PeakToPeak, AddMeasurement 1 RMS, AddMeasurement 2 Mean,
                 AddMeasurement 2 Frequency]"

section \<open>The packetizer and the wire layout\<close>

lemma packedData_4:
  "packedData [s0, s1, s2, s3] =
     [ucast (s0 AND 0xFF),
      ucast ((ucast (ucast (drop_bit 8 s0 AND 0x03) :: byte) :: u16) OR push_bit 2 (s1 AND 0x3F)),
      ucast ((ucast (ucast (drop_bit 6 s1 AND 0x0F) :: byte) :: u16) OR push_bit 4 (s2 AND 0x0F)),
      ucast ((ucast (ucast (drop_bit 4 s2 AND 0x3F) :: byte) :: u16) OR push_bit 6 (s3 AND 0x03)),
      ucast (drop_bit 2 s3 AND 0xFF)]"
  by (simp add: packedData_def Let_def)

lemma length_4_cases:
  assumes "length (xs :: 'a list) = 4"
  obtains a b c d where "xs = [a, b, c, d]"
  using assms by (auto simp: length_Suc_conv numeral_eq_Suc)

lemma length_5_cases:
  assumes "length (xs :: 'a list) = 5"
  obtains a b c d e where "xs = [a, b, c, d, e]"
  using assms by (auto simp: length_Suc_conv numeral_eq_Suc)

lemma u16_masks:
  "(255 :: u16) = mask 8" "(3 :: u16) = mask 2" "(63 :: u16) = mask 6" "(15 :: u16) = mask 4"
  by (simp_all add: mask_eq_exp_minus_1)

lemma byte0_layout: "unat (ucast (s0 AND 0xFF :: u16) :: byte) = bits 7 0 (unat s0)"
  unfolding u16_masks bits_def
  by (rule bit_eqI) (auto simp add: bit_simps)

lemma byte1_layout:
  "unat (ucast ((ucast (ucast (drop_bit 8 s0 AND 0x03 :: u16) :: byte) :: u16)
                  OR push_bit 2 (s1 AND 0x3F)) :: byte)
   = bits 9 8 (unat s0) OR push_bit 2 (bits 5 0 (unat s1))"
  unfolding u16_masks bits_def
  by (rule bit_eqI) (auto simp add: bit_simps)

lemma byte2_layout:
  "unat (ucast ((ucast (ucast (drop_bit 6 s1 AND 0x0F :: u16) :: byte) :: u16)
                  OR push_bit 4 (s2 AND 0x0F)) :: byte)
   = bits 9 6 (unat s1) OR push_bit 4 (bits 3 0 (unat s2))"
  unfolding u16_masks bits_def
  by (rule bit_eqI) (auto simp add: bit_simps)

lemma byte3_layout:
  "unat (ucast ((ucast (ucast (drop_bit 4 s2 AND 0x3F :: u16) :: byte) :: u16)
                  OR push_bit 6 (s3 AND 0x03)) :: byte)
   = bits 9 4 (unat s2) OR push_bit 6 (bits 1 0 (unat s3))"
  unfolding u16_masks bits_def
  by (rule bit_eqI) (auto simp add: bit_simps)

lemma byte4_layout: "unat (ucast (drop_bit 2 s3 AND 0xFF :: u16) :: byte) = bits 9 2 (unat s3)"
  unfolding u16_masks bits_def
  by (rule bit_eqI) (auto simp add: bit_simps)

lemma packedData_layout_4:
  "map unat (packedData [s0, s1, s2, s3]) = layout (unat s0) (unat s1) (unat s2) (unat s3)"
  unfolding packedData_4 layout_def list.map
  apply (simp only: byte4_layout)
  apply (simp only: byte0_layout byte1_layout byte2_layout byte3_layout)
  done

text \<open>
  C2. For four samples, each in [0,1023], the five bytes the firmware computes are the
  bytes of the wire layout: byte0 = s0[7:0], byte1 = s0[9:8] | (s1[5:0] << 2),
  byte2 = s1[9:6] | (s2[3:0] << 4), byte3 = s2[9:4] | (s3[1:0] << 6), byte4 = s3[9:2].
\<close>

theorem packedData_layout:
  assumes "length samples = 4" and "\<forall>s \<in> set samples. unat s \<le> 1023"
  shows "map unat (packedData samples) =
           layout (unat (samples ! 0)) (unat (samples ! 1)) (unat (samples ! 2))
             (unat (samples ! 3))"
proof -
  from assms(1) obtain s0 s1 s2 s3 where "samples = [s0, s1, s2, s3]"
    by (rule length_4_cases)
  then show ?thesis
    by (simp add: packedData_layout_4)
qed

theorem packedData_layout_witness:
  "length [100, 200, 300, 400 :: u16] = 4
   \<and> list_all (\<lambda>s. unat s \<le> 1023) [100, 200, 300, 400 :: u16]
   \<and> map unat (packedData [100, 200, 300, 400]) = layout 100 200 300 400
   \<and> layout 100 200 300 400 = [100, 32, 195, 18, 100]"
  using packedData_layout [of "[100, 200, 300, 400]"]
  by (simp add: layout_def bits_def take_bit_eq_mod)

lemma Suc_Suc_diff_2: "2 \<le> n \<Longrightarrow> Suc (Suc (n - 2)) = n"
  by simp

lemma Suc_Suc_diff_2': "\<not> n < Suc (Suc 0) \<Longrightarrow> Suc (Suc (n - 2)) = n"
  by simp

lemma Suc_Suc_diff_2'': "\<not> n < 2 \<Longrightarrow> Suc (Suc (n - 2)) = n"
  by simp

lemma unpack_layout:
  "unpack (layout s0 s1 s2 s3) =
     Some [take_bit 10 s0, take_bit 10 s1, take_bit 10 s2, take_bit 10 s3]"
  unfolding layout_def bits_def unpack.simps option.inject list.inject
  apply (intro conjI bit_eqI)
  apply (auto simp add: bit_simps Suc_Suc_diff_2 Suc_Suc_diff_2')
  done

lemma take_bit_10_id: "unat (s :: u16) \<le> 1023 \<Longrightarrow> take_bit 10 (unat s) = unat s"
  by (simp add: take_bit_nat_eq_self_iff)

lemma layout_take_bit:
  "layout (take_bit 10 s0) (take_bit 10 s1) (take_bit 10 s2) (take_bit 10 s3) =
     layout s0 s1 s2 s3"
  unfolding layout_def bits_def list.inject
  apply (intro conjI bit_eqI)
  apply (auto simp add: bit_simps Suc_Suc_diff_2 Suc_Suc_diff_2')
  done

lemma unat_mod_1024: "unat (s mod 1024 :: u16) = take_bit 10 (unat s)"
  by (simp add: unat_mod take_bit_eq_mod)

lemma map_unat_inject: "map unat (xs :: 'a::len word list) = map unat ys \<Longrightarrow> xs = ys"
  by (rule injD [OF inj_mapI]) (auto intro: injI)

text \<open>
  C10. For every array of four 16-bit values, also values above 1023, the packed bytes
  are those of the same samples reduced modulo 1024: every byte depends on the low ten
  bits of each sample only.
\<close>

theorem packedData_mod_1024:
  assumes "length samples = 4"
  shows "packedData (map (\<lambda>s. s mod 1024) samples) = packedData samples"
proof -
  from assms obtain s0 s1 s2 s3 where samples: "samples = [s0, s1, s2, s3]"
    by (rule length_4_cases)
  have "map unat (packedData [s0 mod 1024, s1 mod 1024, s2 mod 1024, s3 mod 1024])
          = map unat (packedData [s0, s1, s2, s3])"
    by (simp only: packedData_layout_4 unat_mod_1024 layout_take_bit)
  then show ?thesis
    unfolding samples by (simp add: map_unat_inject)
qed

theorem packedData_mod_1024_witness:
  "length [1124, 65535, 1024, 40000 :: u16] = 4
   \<and> packedData [100, 1023, 0, 64] = packedData [1124, 65535, 1024, 40000]"
  using packedData_mod_1024 [of "[1124, 65535, 1024, 40000]"]
  by simp

lemma unpack_packedData_4:
  "unpack (map unat (packedData [s0, s1, s2, s3])) =
     Some [take_bit 10 (unat s0), take_bit 10 (unat s1), take_bit 10 (unat s2),
           take_bit 10 (unat s3)]"
  by (simp only: packedData_layout_4 unpack_layout)

lemma unpack_packedData_in_range:
  assumes "length samples = 4" and "\<forall>s \<in> set samples. unat s \<le> 1023"
  shows "unpack (map unat (packedData samples)) = Some (map unat samples)"
proof -
  from assms(1) obtain s0 s1 s2 s3 where samples: "samples = [s0, s1, s2, s3]"
    by (rule length_4_cases)
  with assms(2) have "take_bit 10 (unat s0) = unat s0" "take_bit 10 (unat s1) = unat s1"
    "take_bit 10 (unat s2) = unat s2" "take_bit 10 (unat s3) = unat s3"
    by (simp_all add: take_bit_10_id)
  then show ?thesis
    unfolding samples unpack_packedData_4 by simp
qed

text \<open>
  C1. Round trip: for four samples, each in [0,1023], packing them into five bytes as
  the firmware does and unpacking the five bytes by inverting the wire layout gives the
  four samples back.
\<close>

theorem unpack_packedData:
  "length samples = 4 \<Longrightarrow> \<forall>s \<in> set samples. unat s \<le> 1023 \<Longrightarrow>
     unpack (map unat (packedData samples)) = Some (map unat samples)"
  by (rule unpack_packedData_in_range)

theorem unpack_packedData_witness:
  "length [100, 200, 300, 400 :: u16] = 4
   \<and> list_all (\<lambda>s. unat s \<le> 1023) [100, 200, 300, 400 :: u16]
   \<and> unpack (map unat (packedData [100, 200, 300, 400])) = Some [100, 200, 300, 400]"
  using unpack_packedData [of "[100, 200, 300, 400]"]
  by simp


lemma layout_unpack:
  fixes b0 b1 b2 b3 b4 :: nat
  assumes "b0 < 256" "b1 < 256" "b2 < 256" "b3 < 256" "b4 < 256"
  shows "layout (b0 OR push_bit 8 (take_bit 2 b1))
      (drop_bit 2 b1 OR push_bit 6 (take_bit 4 b2))
      (drop_bit 4 b2 OR push_bit 4 (take_bit 6 b3))
      (drop_bit 6 b3 OR push_bit 2 b4) = [b0, b1, b2, b3, b4]"
proof -
  from assms have "take_bit 8 b0 = b0" "take_bit 8 b1 = b1" "take_bit 8 b2 = b2"
    "take_bit 8 b3 = b3" "take_bit 8 b4 = b4"
    by (simp_all add: take_bit_nat_eq_self_iff)
  then have *: "\<And>n. bit b0 n \<Longrightarrow> n < 8" "\<And>n. bit b1 n \<Longrightarrow> n < 8" "\<And>n. bit b2 n \<Longrightarrow> n < 8"
    "\<And>n. bit b3 n \<Longrightarrow> n < 8" "\<And>n. bit b4 n \<Longrightarrow> n < 8"
    by (metis bit_take_bit_iff)+
  show ?thesis
    unfolding layout_def bits_def list.inject
    apply (intro conjI bit_eqI)
    apply (auto simp add: bit_simps Suc_Suc_diff_2 Suc_Suc_diff_2'' dest: *)
    done
qed

lemma unpack_bound:
  fixes b0 b1 b2 b3 b4 :: nat
  assumes "b0 < 256" "b1 < 256" "b2 < 256" "b3 < 256" "b4 < 256"
  shows "b0 OR push_bit 8 (take_bit 2 b1) < 1024"
    "drop_bit 2 b1 OR push_bit 6 (take_bit 4 b2) < 1024"
    "drop_bit 4 b2 OR push_bit 4 (take_bit 6 b3) < 1024"
    "drop_bit 6 b3 OR push_bit 2 b4 < 1024"
proof -
  from assms have "take_bit 8 b0 = b0" "take_bit 8 b1 = b1" "take_bit 8 b2 = b2"
    "take_bit 8 b3 = b3" "take_bit 8 b4 = b4"
    by (simp_all add: take_bit_nat_eq_self_iff)
  then have *: "\<And>n. bit b0 n \<Longrightarrow> n < 8" "\<And>n. bit b1 n \<Longrightarrow> n < 8" "\<And>n. bit b2 n \<Longrightarrow> n < 8"
    "\<And>n. bit b3 n \<Longrightarrow> n < 8" "\<And>n. bit b4 n \<Longrightarrow> n < 8"
    by (metis bit_take_bit_iff)+
  have **: "x < 1024" if "take_bit 10 x = x" for x :: nat
    using that by (simp add: take_bit_nat_eq_self_iff)
  show "b0 OR push_bit 8 (take_bit 2 b1) < 1024"
    by (rule **, rule bit_eqI) (auto simp add: bit_simps dest: *)
  show "drop_bit 2 b1 OR push_bit 6 (take_bit 4 b2) < 1024"
    by (rule **, rule bit_eqI) (auto simp add: bit_simps dest: *)
  show "drop_bit 4 b2 OR push_bit 4 (take_bit 6 b3) < 1024"
    by (rule **, rule bit_eqI) (auto simp add: bit_simps dest: *)
  show "drop_bit 6 b3 OR push_bit 2 b4 < 1024"
    by (rule **, rule bit_eqI) (auto simp add: bit_simps dest: *)
qed

lemma unat_byte_less: "unat (b :: byte) < 256"
  using unsigned_less [of b, where 'a = nat] by simp

lemma unat_of_nat_u16: "n < 1024 \<Longrightarrow> unat (of_nat n :: u16) = n"
  by (simp add: unat_of_nat)

lemma packedData_onto:
  assumes "length bs = 5"
  shows "\<exists>samples. in_range samples \<and> packedData samples = bs"
proof -
  from assms obtain b0 b1 b2 b3 b4 where bs: "bs = [b0, b1, b2, b3, b4]"
    by (rule length_5_cases)
  define s0 where "s0 = unat b0 OR push_bit 8 (take_bit 2 (unat b1))"
  define s1 where "s1 = drop_bit 2 (unat b1) OR push_bit 6 (take_bit 4 (unat b2))"
  define s2 where "s2 = drop_bit 4 (unat b2) OR push_bit 4 (take_bit 6 (unat b3))"
  define s3 where "s3 = drop_bit 6 (unat b3) OR push_bit 2 (unat b4)"
  have lt: "s0 < 1024" "s1 < 1024" "s2 < 1024" "s3 < 1024"
    unfolding s0_def s1_def s2_def s3_def
    by (rule unpack_bound [OF unat_byte_less unat_byte_less unat_byte_less unat_byte_less unat_byte_less])+
  let ?samples = "[of_nat s0, of_nat s1, of_nat s2, of_nat s3] :: u16 list"
  have un: "unat (of_nat s0 :: u16) = s0" "unat (of_nat s1 :: u16) = s1"
    "unat (of_nat s2 :: u16) = s2" "unat (of_nat s3 :: u16) = s3"
    using lt by (simp_all add: unat_of_nat_u16)
  have "in_range ?samples"
    using lt by (simp add: in_range_def un)
  moreover have "map unat (packedData ?samples) = layout s0 s1 s2 s3"
    by (simp only: packedData_layout_4 un)
  then have "map unat (packedData ?samples) = map unat bs"
    unfolding bs s0_def s1_def s2_def s3_def
    by (simp add: layout_unpack [OF unat_byte_less unat_byte_less unat_byte_less
          unat_byte_less unat_byte_less])
  then have "packedData ?samples = bs"
    by (rule map_unat_inject)
  ultimately show ?thesis by blast
qed

lemma length_packedData: "length (packedData samples) = 5"
  by (simp add: packedData_def Let_def)

lemma packedData_inj:
  assumes "in_range xs" "in_range ys" "packedData xs = packedData ys"
  shows "xs = ys"
proof -
  have "Some (map unat xs) = unpack (map unat (packedData xs))"
    using assms(1) by (simp add: in_range_def unpack_packedData_in_range)
  also have "\<dots> = Some (map unat ys)"
    using assms(2,3) by (simp add: in_range_def unpack_packedData_in_range)
  finally show ?thesis
    by (simp add: map_unat_inject)
qed

text \<open>
  C9. Restricted to quadruples of samples in [0,1023], the packing is injective, and a
  bijection onto the strings of five bytes: a packet determines its quadruple, and
  every string of five bytes is a packet.
\<close>

theorem packedData_bijection: "bij_betw packedData quadruples packets"
  unfolding bij_betw_def
proof
  show "inj_on packedData quadruples"
    by (rule inj_onI) (auto simp: quadruples_def intro: packedData_inj)
  show "packedData ` quadruples = packets"
  proof
    show "packedData ` quadruples \<subseteq> packets"
      by (auto simp: packets_def length_packedData)
    show "packets \<subseteq> packedData ` quadruples"
      using packedData_onto by (fastforce simp: packets_def quadruples_def image_iff)
  qed
qed

theorem packedData_bijection_witness:
  "[100, 200, 300, 400] \<in> quadruples \<and> packedData [100, 200, 300, 400] \<in> packets
   \<and> [255, 255, 255, 255, 255] \<in> packedData ` quadruples"
proof -
  have "[100, 200, 300, 400] \<in> quadruples"
    by (simp add: quadruples_def in_range_def)
  moreover have "[255, 255, 255, 255, 255] \<in> packets"
    by (simp add: packets_def)
  ultimately show ?thesis
    using packedData_bijection by (auto simp: bij_betw_def)
qed


section \<open>The acquisition loop\<close>

lemma wait_adc_Some:
  "observed ps = v # rest \<Longrightarrow> \<exists>ps'. wait_adc ps = Some (v, ps') \<and> observed ps' = rest"
  by (induction ps rule: wait_adc.induct) auto

lemma wait_adc_None: "observed ps = [] \<Longrightarrow> wait_adc ps = None"
  by (induction ps rule: wait_adc.induct) auto

lemma acquire_4: "acquire 4 samples ps = Some (samples, ps)"
  by (simp add: acquire.simps)

lemma acquire_step:
  assumes "i < 4" and "observed ps = v # rest"
  shows "\<exists>ps'. acquire i samples ps = acquire (Suc i) (samples[i := v]) ps' \<and> observed ps' = rest"
proof -
  from wait_adc_Some [OF assms(2)] obtain ps' where "wait_adc ps = Some (v, ps')"
    and "observed ps' = rest" by blast
  with assms(1) show ?thesis
    by (subst acquire.simps) auto
qed

lemma acquire_Some:
  assumes "observed ps = a # b # c # d # rest"
  shows "\<exists>ps'. acquire 0 [w, x, y, z] ps = Some ([a, b, c, d], ps') \<and> observed ps' = rest"
proof -
  from acquire_step [of 0 ps a "b # c # d # rest" "[w, x, y, z]"] assms
  obtain p1 where 1: "acquire 0 [w, x, y, z] ps = acquire 1 [a, x, y, z] p1"
    and o1: "observed p1 = b # c # d # rest" by auto
  from acquire_step [of 1 p1 b "c # d # rest" "[a, x, y, z]"] o1
  obtain p2 where 2: "acquire 1 [a, x, y, z] p1 = acquire 2 [a, b, y, z] p2"
    and o2: "observed p2 = c # d # rest" by (auto simp: numeral_2_eq_2)
  from acquire_step [of 2 p2 c "d # rest" "[a, b, y, z]"] o2
  obtain p3 where 3: "acquire 2 [a, b, y, z] p2 = acquire 3 [a, b, c, z] p3"
    and o3: "observed p3 = d # rest" by (auto simp: numeral_3_eq_3 numeral_2_eq_2)
  from acquire_step [of 3 p3 d rest "[a, b, c, z]"] o3
  obtain p4 where 4: "acquire 3 [a, b, c, z] p3 = acquire 4 [a, b, c, d] p4"
    and o4: "observed p4 = rest" by (auto simp: numeral_3_eq_3 eval_nat_numeral)
  show ?thesis
    using 1 2 3 4 o4 by (simp add: acquire_4)
qed

lemma loop_Some:
  assumes "observed (adc h) = a # b # c # d # rest"
  shows "\<exists>ps'. loop h = Some \<lparr>adc = ps', serial = serial h @ packedData [a, b, c, d]\<rparr>
           \<and> observed ps' = rest"
proof -
  from acquire_Some [OF assms] obtain ps'
    where "acquire 0 [0, 0, 0, 0] (adc h) = Some ([a, b, c, d], ps')" and "observed ps' = rest"
    by blast
  then show ?thesis
    by (simp add: loop_def length_packedData)
qed

lemma length_ge_4_cases:
  assumes "4 \<le> length (xs :: 'a list)"
  obtains a b c d rest where "xs = a # b # c # d # rest"
proof -
  from assms obtain a x1 where "xs = a # x1" "3 \<le> length x1" by (cases xs) auto
  moreover then obtain b x2 where "x1 = b # x2" "2 \<le> length x2" by (cases x1) auto
  moreover then obtain c x3 where "x2 = c # x3" "1 \<le> length x3" by (cases x2) auto
  moreover then obtain d x4 where "x3 = d # x4" by (cases x3) auto
  ultimately show ?thesis using that by blast
qed

lemma drop_4_Cons: "drop (4 + k) (a # b # c # d # rest) = drop k rest"
  by (simp add: numeral_eq_Suc)

lemma run_Some:
  "4 * n \<le> length (observed (adc h)) \<Longrightarrow>
     \<exists>h'. run n h = Some h'
        \<and> serial h' = serial h @ concat (map packedData (take n (groups4 (observed (adc h)))))
        \<and> observed (adc h') = drop (4 * n) (observed (adc h))"
proof (induction n arbitrary: h)
  case 0
  then show ?case by simp
next
  case (Suc n)
  then have "4 \<le> length (observed (adc h))" by simp
  then obtain a b c d rest where obs: "observed (adc h) = a # b # c # d # rest"
    by (rule length_ge_4_cases)
  from loop_Some [OF obs] obtain ps'
    where l: "loop h = Some \<lparr>adc = ps', serial = serial h @ packedData [a, b, c, d]\<rparr>"
      and o: "observed ps' = rest" by blast
  let ?h1 = "\<lparr>adc = ps', serial = serial h @ packedData [a, b, c, d]\<rparr>"
  from Suc.prems obs o have "4 * n \<le> length (observed (adc ?h1))" by simp
  from Suc.IH [OF this] obtain h' where r: "run n ?h1 = Some h'"
    and s: "serial h' = serial ?h1 @ concat (map packedData (take n (groups4 (observed (adc ?h1)))))"
    and d: "observed (adc h') = drop (4 * n) (observed (adc ?h1))" by blast
  have "run (Suc n) h = Some h'" using l r by simp
  moreover have "serial h' = serial h @ concat (map packedData (take (Suc n) (groups4 (observed (adc h)))))"
    using s o obs by simp
  moreover have "observed (adc h') = drop (4 * Suc n) (observed (adc h))"
    using d o obs by (simp add: drop_4_Cons)
  ultimately show ?case by blast
qed

lemma length_groups4: "length (groups4 xs) = length xs div 4"
  by (induction xs rule: groups4.induct) auto

lemma length_concat_packets: "length (concat (map packedData gs)) = 5 * length gs"
  by (induction gs) (auto simp: length_packedData)

lemma wait_adc_observed:
  "wait_adc ps = Some (v, ps') \<Longrightarrow> observed ps = v # observed ps'"
  by (induction ps rule: wait_adc.induct) auto

lemma acquire_None:
  "length (observed ps) < 4 - i \<Longrightarrow> acquire i samples ps = None"
proof (induction i samples ps rule: acquire.induct)
  case (1 i samples ps)
  show ?case
  proof (cases "wait_adc ps")
    case None
    with "1.prems" show ?thesis by (subst acquire.simps) auto
  next
    case (Some r)
    obtain v ps' where r: "r = (v, ps')" by (cases r)
    from Some r have "observed ps = v # observed ps'" by (simp add: wait_adc_observed)
    with "1.prems" have i: "i < 4" and len: "length (observed ps') < 4 - (i + 1)" by auto
    from Some r have w: "wait_adc ps = Some (v, ps')" by simp
    have "acquire (i + 1) (samples[i := v]) ps' = None"
      using i w refl len by (rule "1.IH")
    then have "(if i < 4 then (case wait_adc ps of None \<Rightarrow> None
                 | Some (v, ps') \<Rightarrow> acquire (i + 1) (samples[i := v]) ps')
               else Some (samples, ps)) = None"
      using i w by simp
    then show ?thesis
      by (subst acquire.simps)
  qed
qed

lemma loop_None: "length (observed (adc h)) < 4 \<Longrightarrow> loop h = None"
  by (simp add: loop_def acquire_None)

text \<open>
  C7. For every group of four consecutive samples the firmware writes one packet of
  five bytes, at once and in arrival order: after \<open>n\<close> runs of \<open>loop\<close> the bytes written
  are the packets of the first \<open>n\<close> groups of four, one after the other and nothing
  else, \<open>5 * n\<close> bytes for \<open>4 * n\<close> samples.
\<close>

theorem run_emits_packets:
  assumes "4 * n \<le> length (observed (adc h))"
  shows "\<exists>h'. run n h = Some h'
           \<and> serial h' = serial h @ concat (map packedData (take n (groups4 (observed (adc h)))))
           \<and> length (serial h') = length (serial h) + 5 * n
           \<and> observed (adc h') = drop (4 * n) (observed (adc h))"
proof -
  from run_Some [OF assms] obtain h' where r: "run n h = Some h'"
    and s: "serial h' = serial h @ concat (map packedData (take n (groups4 (observed (adc h)))))"
    and d: "observed (adc h') = drop (4 * n) (observed (adc h))" by blast
  from assms have "n \<le> length (groups4 (observed (adc h)))"
    by (simp add: length_groups4)
  then have "length (serial h') = length (serial h) + 5 * n"
    unfolding s by (simp add: length_concat_packets)
  with r s d show ?thesis by blast
qed

theorem run_emits_packets_witness:
  "4 * 2 \<le> length (observed [None, Some 100, Some 200, None, Some 300, Some 400,
                               Some 1, Some 2, Some 3, None, Some 4, Some 9])
   \<and> (\<exists>h'. run 2 \<lparr>adc = [None, Some 100, Some 200, None, Some 300, Some 400,
                          Some 1, Some 2, Some 3, None, Some 4, Some 9], serial = []\<rparr> = Some h'
          \<and> serial h' = [100, 32, 195, 18, 100, 1, 8, 48, 0, 1]
          \<and> observed (adc h') = [9])"
  using run_emits_packets [of 2 "\<lparr>adc = [None, Some 100, Some 200, None, Some 300, Some 400,
                          Some 1, Some 2, Some 3, None, Some 4, Some 9], serial = []\<rparr>"]
  by (auto simp add: packedData_4)



section \<open>Channel registry, measurement slots and math engine\<close>

lemma exec_Nil: "exec [] = init_system"
  by (simp add: exec_def)

lemma exec_snoc: "exec (ops @ [x]) = step (exec ops) x"
  by (simp add: exec_def)

lemma channels_init:
  "channels init_system = [CH1, CH2]"
  by (simp add: init_system_def create_physical_def CH1_def CH2_def)

lemma slots_init: "slots init_system = [None, None, None, None]"
  by (simp add: init_system_def create_physical_def)

lemma levels_ok_init: "levels_ok init_system"
  by (simp add: levels_ok_def channels_init CH1_def CH2_def)

lemma levels_ok_create:
  "levels_ok s \<Longrightarrow> levels_ok (snd (create_derived opr sw a b s))"
  by (auto simp: levels_ok_def create_derived_def Let_def)

lemma levels_ok_delete: "levels_ok s \<Longrightarrow> levels_ok (delete_derived i s)"
  by (auto simp: levels_ok_def delete_derived_def)

lemma levels_ok_add: "levels_ok s \<Longrightarrow> levels_ok (snd (add_measurement c m s))"
  by (auto simp: levels_ok_def add_measurement_def split: option.splits)

lemma levels_ok_remove: "levels_ok s \<Longrightarrow> levels_ok (remove_measurement i s)"
  by (auto simp: levels_ok_def remove_measurement_def)

lemma levels_ok_step: "levels_ok s \<Longrightarrow> levels_ok (step s x)"
  by (cases x) (simp_all add: levels_ok_create levels_ok_delete levels_ok_add levels_ok_remove)

lemma levels_ok_exec: "levels_ok (exec ops)"
  by (induction ops rule: rev_induct) (simp_all add: exec_Nil exec_snoc levels_ok_init levels_ok_step)

lemma create_derived_accepted:
  "(\<exists>i s'. create_derived opr sw a b s = (Inr i, s')) \<longleftrightarrow>
     math_level a = 0 \<and> math_level b = 0 \<and> derived_count s < 3"
  by (auto simp: create_derived_def Let_def)

lemma create_derived_nesting:
  "0 < math_level a \<or> 0 < math_level b \<Longrightarrow>
     create_derived opr sw a b s = (Inl NestingTooDeep, s)"
  by (auto simp: create_derived_def Let_def)

text \<open>
  C4. After every sequence of operations on the registry, \<open>create_derived\<close> is accepted
  if and only if both operands have \<open>math_level\<close> 0 and fewer than three derived
  channels exist; a creation with a live derived channel as an operand is rejected with
  \<open>NestingTooDeep\<close> and leaves the state as it was; every live derived channel has
  \<open>math_level\<close> 1.
\<close>

theorem create_derived_math_level:
  "((\<exists>i s'. create_derived opr sw a b (exec ops) = (Inr i, s')) \<longleftrightarrow>
      math_level a = 0 \<and> math_level b = 0 \<and> derived_count (exec ops) < 3)
   \<and> ((a \<in> set (channels (exec ops)) \<and> kind a = Derived)
        \<or> (b \<in> set (channels (exec ops)) \<and> kind b = Derived) \<longrightarrow>
        create_derived opr sw a b (exec ops) = (Inl NestingTooDeep, exec ops))
   \<and> (\<forall>c \<in> set (channels (exec ops)). kind c = Derived \<longrightarrow> math_level c = 1)"
proof (intro conjI)
  show "(\<exists>i s'. create_derived opr sw a b (exec ops) = (Inr i, s')) \<longleftrightarrow>
      math_level a = 0 \<and> math_level b = 0 \<and> derived_count (exec ops) < 3"
    by (rule create_derived_accepted)
  have lv: "\<forall>c \<in> set (channels (exec ops)). kind c = Derived \<longrightarrow> math_level c = 1"
    using levels_ok_exec [of ops] by (simp add: levels_ok_def)
  then show "\<forall>c \<in> set (channels (exec ops)). kind c = Derived \<longrightarrow> math_level c = 1" .
  show "(a \<in> set (channels (exec ops)) \<and> kind a = Derived)
        \<or> (b \<in> set (channels (exec ops)) \<and> kind b = Derived) \<longrightarrow>
        create_derived opr sw a b (exec ops) = (Inl NestingTooDeep, exec ops)"
  proof
    assume "(a \<in> set (channels (exec ops)) \<and> kind a = Derived)
        \<or> (b \<in> set (channels (exec ops)) \<and> kind b = Derived)"
    with lv have "0 < math_level a \<or> 0 < math_level b" by auto
    then show "create_derived opr sw a b (exec ops) = (Inl NestingTooDeep, exec ops)"
      by (rule create_derived_nesting)
  qed
qed


lemmas eval_defs = exec_def init_system_def create_physical_def create_derived_def CH1_def CH2_def
  MATH1_def derived_count_def next_color_def Let_def three_math_def delete_derived_def
  add_measurement_def remove_measurement_def

theorem create_derived_math_level_witness:
  "(\<exists>i s'. create_derived Add False CH1 CH2 (exec []) = (Inr i, s'))
   \<and> MATH1 \<in> set (channels (exec [CreateDerived Add False CH1 CH2]))
   \<and> create_derived Multiply True MATH1 CH2 (exec [CreateDerived Add False CH1 CH2])
       = (Inl NestingTooDeep, exec [CreateDerived Add False CH1 CH2])"
  using create_derived_math_level [of Add False CH1 CH2 "[]"]
    create_derived_math_level [of Multiply True MATH1 CH2 "[CreateDerived Add False CH1 CH2]"]
  by (simp add: eval_defs)

subsection \<open>The number of derived channels\<close>

text \<open>
  Facts that do not depend on which of the two checks of \<open>create_derived\<close> comes first:
  no sequence of operations leaves more than three derived channels, with three of them
  a creation fails and changes nothing, and deleting a live derived channel lowers
  their number.
\<close>

lemma derived_count_init: "derived_count init_system = 0"
  by (simp add: derived_count_def channels_init CH1_def CH2_def)

lemma derived_count_create:
  "derived_count (snd (create_derived opr sw a b s)) =
     (if math_level a = 0 \<and> math_level b = 0 \<and> derived_count s < 3
      then derived_count s + 1 else derived_count s)"
  by (auto simp: create_derived_def derived_count_def Let_def)

lemma derived_count_delete: "derived_count (delete_derived i s) \<le> derived_count s"
proof -
  have "length (filter (\<lambda>c. kind c = Derived) (filter (\<lambda>c. ident c \<noteq> i) (channels s)))
          \<le> length (filter (\<lambda>c. kind c = Derived) (channels s))"
    by (simp add: filter_filter conj_commute) (metis filter_filter length_filter_le)
  then show ?thesis
    by (simp add: delete_derived_def derived_count_def)
qed

lemma derived_count_add: "derived_count (snd (add_measurement c m s)) = derived_count s"
  by (simp add: add_measurement_def derived_count_def split: option.splits)

lemma derived_count_remove: "derived_count (remove_measurement i s) = derived_count s"
  by (simp add: remove_measurement_def derived_count_def)

lemma derived_count_step_le: "derived_count s \<le> 3 \<Longrightarrow> derived_count (step s x) \<le> 3"
  using derived_count_delete [of _ s]
  by (cases x) (auto simp: derived_count_create derived_count_add derived_count_remove
      intro: order_trans)

lemma derived_count_exec: "derived_count (exec ops) \<le> 3"
  by (induction ops rule: rev_induct)
    (simp_all add: exec_Nil exec_snoc derived_count_init derived_count_step_le)

lemma create_derived_full:
  assumes "derived_count s = 3"
  shows "\<exists>e. create_derived opr sw a b s = (Inl e, s)"
    and "math_level a = 0 \<and> math_level b = 0 \<Longrightarrow>
           create_derived opr sw a b s = (Inl ChannelLimitReached, s)"
  using assms by (auto simp: create_derived_def Let_def)

lemma derived_count_delete_less:
  assumes "\<exists>c \<in> set (channels s). ident c = i \<and> kind c = Derived"
  shows "derived_count (delete_derived i s) < derived_count s"
proof -
  from assms obtain c where c: "c \<in> set (channels s)" "ident c = i" "kind c = Derived"
    by blast
  then have "c \<in> set (filter (\<lambda>c. kind c = Derived) (channels s))" by simp
  moreover have "\<not> ident c \<noteq> i" using c by simp
  ultimately have "length (filter (\<lambda>c. ident c \<noteq> i) (filter (\<lambda>c. kind c = Derived) (channels s)))
      < length (filter (\<lambda>c. kind c = Derived) (channels s))"
    by (rule length_filter_less)
  moreover have "filter (\<lambda>c. kind c = Derived) (filter (\<lambda>c. ident c \<noteq> i) (channels s))
      = filter (\<lambda>c. ident c \<noteq> i) (filter (\<lambda>c. kind c = Derived) (channels s))"
    by (simp add: conj_commute)
  ultimately show ?thesis
    using assms by (simp add: delete_derived_def derived_count_def)
qed

subsection \<open>Measurement slots\<close>

lemma lowest_free_None: "lowest_free ms = None \<longleftrightarrow> occupied ms"
  by (induction ms rule: lowest_free.induct) (auto simp: occupied_def)

lemma lowest_free_Some:
  "lowest_free ms = Some i \<Longrightarrow> i < length ms \<and> ms ! i = None \<and> (\<forall>j < i. ms ! j \<noteq> None)"
proof (induction ms arbitrary: i rule: lowest_free.induct)
  case 1
  then show ?case by simp
next
  case (2 ms)
  then show ?case by simp
next
  case (3 m ms)
  then obtain k where k: "lowest_free ms = Some k" and i: "i = Suc k" by auto
  from "3.IH" [OF k] have "k < length ms" "ms ! k = None" "\<forall>j < k. ms ! j \<noteq> None"
    by simp_all
  then show ?case
    unfolding i by (auto simp: nth_Cons split: nat.splits)
qed

lemma lowest_free_least:
  "i < length ms \<Longrightarrow> ms ! i = None \<Longrightarrow> \<forall>j < i. ms ! j \<noteq> None \<Longrightarrow> lowest_free ms = Some i"
proof (induction ms arbitrary: i rule: lowest_free.induct)
  case 1
  then show ?case by simp
next
  case (2 ms)
  then show ?case by (cases i) auto
next
  case (3 m ms)
  show ?case
  proof (cases i)
    case 0
    with "3.prems" show ?thesis by simp
  next
    case (Suc k)
    with "3.prems" have "k < length ms" "ms ! k = None" "\<forall>j < k. ms ! j \<noteq> None"
      by auto
    then have "lowest_free ms = Some k" by (rule "3.IH")
    with Suc show ?thesis by simp
  qed
qed

lemma slots_step: "length (slots (step s x)) = length (slots s)"
  by (cases x)
    (auto simp: create_derived_def delete_derived_def add_measurement_def remove_measurement_def
      Let_def split: option.splits)

lemma length_slots_exec: "length (slots (exec ops)) = 4"
  by (induction ops rule: rev_induct) (simp_all add: exec_Nil exec_snoc slots_init slots_step)

lemma add_measurement_full:
  "fst (add_measurement c m s) = Inl SlotsFull \<longleftrightarrow> occupied (slots s)"
  by (auto simp add: add_measurement_def simp flip: lowest_free_None split: option.splits)

lemma add_measurement_free:
  assumes "\<not> occupied (slots s)"
  shows "\<exists>i < length (slots s). slots s ! i = None \<and> (\<forall>j < i. slots s ! j \<noteq> None)
     \<and> add_measurement c m s =
         (Inr i, s\<lparr>slots := (slots s)[i := Some \<lparr>channel_id = c, metric = m, cached = None,
                                               stale = True\<rparr>]\<rparr>)"
proof -
  from assms obtain i where i: "lowest_free (slots s) = Some i"
    by (auto simp: lowest_free_None [symmetric])
  from lowest_free_Some [OF i] i show ?thesis
    by (auto simp: add_measurement_def)
qed

lemma add_after_remove:
  assumes "i < length (slots s)"
  shows "slots (remove_measurement i s) ! i = None"
    and "\<exists>j \<le> i. fst (add_measurement c m (remove_measurement i s)) = Inr j"
    and "\<forall>j < i. slots s ! j \<noteq> None \<Longrightarrow>
           fst (add_measurement c m (remove_measurement i s)) = Inr i"
proof -
  let ?ms = "slots (remove_measurement i s)"
  show free: "?ms ! i = None"
    using assms by (simp add: remove_measurement_def)
  have len: "i < length ?ms"
    using assms by (simp add: remove_measurement_def)
  then have "\<not> occupied ?ms"
    using free by (auto simp: occupied_def dest: nth_mem)
  then obtain k where k: "lowest_free ?ms = Some k"
    by (auto simp: lowest_free_None [symmetric])
  from lowest_free_Some [OF k] free have "k \<le> i"
    by (meson not_le_imp_less)
  with k show "\<exists>j \<le> i. fst (add_measurement c m (remove_measurement i s)) = Inr j"
    by (auto simp: add_measurement_def)
  show "fst (add_measurement c m (remove_measurement i s)) = Inr i"
    if "\<forall>j < i. slots s ! j \<noteq> None"
  proof -
    from that have "\<forall>j < i. ?ms ! j \<noteq> None"
      by (simp add: remove_measurement_def)
    with len free have "lowest_free ?ms = Some i"
      by (rule lowest_free_least)
    then show ?thesis by (simp add: add_measurement_def)
  qed
qed

text \<open>
  C6. After every sequence of operations there are four slots; \<open>add_measurement\<close> fails
  with \<open>SlotsFull\<close> exactly when all of them are occupied, and otherwise claims the
  lowest free index. After \<open>remove_measurement i\<close> slot \<open>i\<close> is free: the next add
  succeeds with an index not above \<open>i\<close>, and with \<open>i\<close> itself when every lower slot is
  occupied.
\<close>

theorem add_measurement_slots:
  "length (slots (exec ops)) = 4
   \<and> (fst (add_measurement c m (exec ops)) = Inl SlotsFull \<longleftrightarrow> occupied (slots (exec ops)))
   \<and> (\<not> occupied (slots (exec ops)) \<longrightarrow>
        (\<exists>i < 4. slots (exec ops) ! i = None \<and> (\<forall>j < i. slots (exec ops) ! j \<noteq> None)
           \<and> add_measurement c m (exec ops) =
               (Inr i, (exec ops)\<lparr>slots := (slots (exec ops))
                  [i := Some \<lparr>channel_id = c, metric = m, cached = None, stale = True\<rparr>]\<rparr>)))
   \<and> (i < 4 \<longrightarrow>
        slots (remove_measurement i (exec ops)) ! i = None
        \<and> (\<exists>j \<le> i. fst (add_measurement c m (remove_measurement i (exec ops))) = Inr j)
        \<and> ((\<forall>j < i. slots (exec ops) ! j \<noteq> None) \<longrightarrow>
             fst (add_measurement c m (remove_measurement i (exec ops))) = Inr i))"
proof (intro conjI impI)
  show len: "length (slots (exec ops)) = 4" by (rule length_slots_exec)
  show "fst (add_measurement c m (exec ops)) = Inl SlotsFull \<longleftrightarrow> occupied (slots (exec ops))"
    by (rule add_measurement_full)
  show "\<exists>i < 4. slots (exec ops) ! i = None \<and> (\<forall>j < i. slots (exec ops) ! j \<noteq> None)
           \<and> add_measurement c m (exec ops) =
               (Inr i, (exec ops)\<lparr>slots := (slots (exec ops))
                  [i := Some \<lparr>channel_id = c, metric = m, cached = None, stale = True\<rparr>]\<rparr>)"
    if "\<not> occupied (slots (exec ops))"
    using add_measurement_free [OF that, of c m] by (simp add: len)
  assume "i < 4"
  then have i: "i < length (slots (exec ops))" by (simp add: len)
  show "slots (remove_measurement i (exec ops)) ! i = None"
    using i by (rule add_after_remove)
  show "\<exists>j \<le> i. fst (add_measurement c m (remove_measurement i (exec ops))) = Inr j"
    using i by (rule add_after_remove)
  show "fst (add_measurement c m (remove_measurement i (exec ops))) = Inr i"
    if "\<forall>j < i. slots (exec ops) ! j \<noteq> None"
    using i that by (rule add_after_remove)
qed

lemma all_less_two: "(\<forall>j < (2::nat). P j) \<longleftrightarrow> P 0 \<and> P 1"
  by (auto simp: less_2_cases_iff)

theorem add_measurement_slots_witness:
  "occupied (slots (exec four_added))
   \<and> fst (add_measurement 1 Mean (exec four_added)) = Inl SlotsFull
   \<and> \<not> occupied (slots (exec [AddMeasurement 1 PeakToPeak]))
   \<and> fst (add_measurement 2 RMS (exec [AddMeasurement 1 PeakToPeak])) = Inr 1
   \<and> slots (exec four_added) ! 0 \<noteq> None \<and> slots (exec four_added) ! 1 \<noteq> None
   \<and> fst (add_measurement 1 Mean (remove_measurement 2 (exec four_added))) = Inr 2"
proof -
  have 1: "occupied (slots (exec four_added))"
    by (simp add: eval_defs four_added_def occupied_def)
  have 2: "\<not> occupied (slots (exec [AddMeasurement 1 PeakToPeak]))"
    by (simp add: eval_defs occupied_def)
  have 3: "\<forall>j < 2. slots (exec four_added) ! j \<noteq> None"
    by (simp add: eval_defs four_added_def all_less_two)
  show ?thesis
    using 1 2 3
      add_measurement_slots [of four_added 1 Mean 2]
      add_measurement_slots [of "[AddMeasurement 1 PeakToPeak]" 2 RMS 0]
    by (auto simp: eval_defs)
qed


subsection \<open>Failed operations\<close>

text \<open>
  C8. An operation of the registry or of the measurements that fails returns its error
  (\<open>NestingTooDeep\<close>, \<open>ChannelLimitReached\<close>, \<open>SlotsFull\<close>, \<open>BufferUnderrun\<close>) as its
  result, and the state it leaves is the state it was called in.
\<close>

theorem failed_operation_keeps_state:
  "(fst (create_derived opr sw a b s) = Inl e \<longrightarrow>
      snd (create_derived opr sw a b s) = s \<and> (e = NestingTooDeep \<or> e = ChannelLimitReached))
   \<and> (fst (add_measurement c m s) = Inl e \<longrightarrow>
      snd (add_measurement c m s) = s \<and> e = SlotsFull)
   \<and> (fst (measure_channel needed compute a m s) = Inl e \<longrightarrow>
      snd (measure_channel needed compute a m s) = s \<and> e = BufferUnderrun)"
  by (auto simp: create_derived_def add_measurement_def measure_channel_def Let_def
      split: option.splits if_splits)

theorem failed_operation_keeps_state_witness:
  "create_derived Add False MATH1 CH2 (exec three_math) = (Inl NestingTooDeep, exec three_math)
   \<and> create_derived Add False CH1 CH2 (exec three_math)
        = (Inl ChannelLimitReached, exec three_math)
   \<and> add_measurement 1 Mean (exec four_added) = (Inl SlotsFull, exec four_added)
   \<and> measure_channel (\<lambda>m. 2) (\<lambda>m xs. hd xs) CH1 Mean init_system
        = (Inl BufferUnderrun, init_system)"
proof -
  have 1: "fst (create_derived Add False MATH1 CH2 (exec three_math)) = Inl NestingTooDeep"
    by (simp add: eval_defs)
  have 2: "fst (create_derived Add False CH1 CH2 (exec three_math)) = Inl ChannelLimitReached"
    by (simp add: eval_defs)
  have 3: "fst (add_measurement 1 Mean (exec four_added)) = Inl SlotsFull"
    by (simp add: eval_defs four_added_def)
  have 4: "fst (measure_channel (\<lambda>m. 2) (\<lambda>m xs. hd xs) CH1 Mean init_system) = Inl BufferUnderrun"
    by (simp add: measure_channel_def CH1_def)
  show ?thesis
    using 1 2 3 4
      failed_operation_keeps_state [where opr = Add and sw = False and a = MATH1 and b = CH2
        and s = "exec three_math" and e = NestingTooDeep]
      failed_operation_keeps_state [where opr = Add and sw = False and a = CH1 and b = CH2
        and s = "exec three_math" and e = ChannelLimitReached]
      failed_operation_keeps_state [where s = "exec four_added" and e = SlotsFull and c = 1
        and m = Mean]
      failed_operation_keeps_state [where s = init_system and e = BufferUnderrun and m = Mean
        and needed = "\<lambda>m. 2" and compute = "\<lambda>m xs. hd xs" and a = CH1]
    by (simp add: prod_eq_iff)
qed

subsection \<open>Division\<close>

lemma recompute_nth:
  "i < length as \<Longrightarrow> i < length bs \<Longrightarrow>
     recompute opr sw as bs ! i = apply_operator opr sw (as ! i) (bs ! i)"
  by (simp add: recompute_def)

text \<open>
  C3. The point-wise division: zero by zero is 1, a positive numerator by zero is
  positive infinity, a negative numerator by zero is negative infinity, everything else
  is the quotient of the reals (6 by 3 is 2). The result is always a value, never a
  fault, and the derived buffer holds it at every matched index, in either operand order.
\<close>

theorem divide_op_rules:
  "divide_op 0 0 = Fin 1
   \<and> (0 < p \<longrightarrow> divide_op p 0 = PosInf)
   \<and> (q < 0 \<longrightarrow> divide_op q 0 = NegInf)
   \<and> (d \<noteq> 0 \<longrightarrow> divide_op n d = Fin (n / d))
   \<and> divide_op 6 3 = Fin 2
   \<and> (i < length as \<and> i < length bs \<longrightarrow>
        recompute Divide False as bs ! i = divide_op (as ! i) (bs ! i)
        \<and> recompute Divide True as bs ! i = divide_op (bs ! i) (as ! i))"
  by (simp add: divide_op_def recompute_nth)

theorem divide_op_rules_witness:
  "divide_op 5 0 = PosInf \<and> divide_op (- 5) 0 = NegInf \<and> divide_op 1 4 = Fin (1 / 4)
   \<and> recompute Divide False [0, 5, - 5, 6] [0, 0, 0, 3] ! 2 = NegInf
   \<and> recompute Divide True [0, 5, - 5, 6] [0, 0, 0, 3] ! 2 = Fin 0"
  using divide_op_rules [of 5 "- 5" 4 1 2 "[0, 5, - 5, 6]" "[0, 0, 0, 3]"]
  by (simp add: divide_op_def)

end
